theory Spec2Isabelle
  imports Complex_Main "HOL-Library.Word"
begin

unbundle bit_operations_syntax

section \<open>Arrays\<close>

text \<open>
  A numpy array is its shape and its elements in row-major (C) order. Every array that
  numpy builds has as many elements as the product of its shape.
\<close>

record 'a ndarray =
  shape :: "nat list"
  data :: "'a list"

definition wf_ndarray :: "'a ndarray \<Rightarrow> bool" where
  "wf_ndarray a \<longleftrightarrow> length (data a) = prod_list (shape a)"

datatype py_error =
  ValueError | AssertionError | IndexError | ZeroDivisionError | FileNotFoundError | OSError

text \<open>Sequencing of steps that may raise: the first error ends the computation.\<close>

definition bind_err :: "py_error + 'a \<Rightarrow> ('a \<Rightarrow> py_error + 'b) \<Rightarrow> py_error + 'b" where
  "bind_err m f = (case m of Inl e \<Rightarrow> Inl e | Inr v \<Rightarrow> f v)"

text \<open>
  \<^verbatim>\<open>a.reshape(newshape)\<close>: at most one entry of the new shape may be \<open>-1\<close>, which
  is then inferred from the size of the array and the other entries; the sizes have to
  agree, otherwise numpy raises \<^verbatim>\<open>ValueError\<close>.
\<close>

definition reshape :: "'a ndarray \<Rightarrow> int list \<Rightarrow> py_error + 'a ndarray" where
  "reshape a newshape =
     (let size = length (data a);
          known = prod_list (map nat (filter (\<lambda>d. d \<noteq> - 1) newshape))
      in if list_ex (\<lambda>d. d < - 1) newshape then Inl ValueError
         else if length (filter (\<lambda>d. d = - 1) newshape) > 1 then Inl ValueError
         else if - 1 \<in> set newshape then
           (if known = 0 \<or> size mod known \<noteq> 0 then Inl ValueError
            else Inr \<lparr>shape = map (\<lambda>d. if d = - 1 then size div known else nat d) newshape,
                      data = data a\<rparr>)
         else if known = size then Inr \<lparr>shape = map nat newshape, data = data a\<rparr>
         else Inl ValueError)"

text \<open>\<^verbatim>\<open>a.flatten()\<close>: the elements in row-major order, as a one-dimensional array.\<close>

definition flatten :: "'a ndarray \<Rightarrow> 'a ndarray" where
  "flatten a = \<lparr>shape = [length (data a)], data = data a\<rparr>"

section \<open>The bit unpacker\<close>

text \<open>
  \<^verbatim>\<open>np.arange(num_bits)\<close> is an array of numpy's default integer type, \<open>int64\<close>, and
  \<^verbatim>\<open>2**np.arange(num_bits)\<close> is computed in that type: the power wraps around modulo
  \<open>2 ^ 64\<close>. A sample is given by its integer value; for \<^verbatim>\<open>x & to_and\<close> numpy
  converts it to \<open>int64\<close> (the common type of \<open>int64\<close> and of every signed integer type
  and every unsigned type of at most 32 bits), which keeps the value. Arrays of \<open>uint64\<close>,
  which have no common integer type with \<open>int64\<close>, are not covered.
\<close>

type_synonym int64 = "64 word"

definition arange :: "nat \<Rightarrow> nat ndarray" where
  "arange n = \<lparr>shape = [n], data = [0..<n]\<rparr>"

text \<open>\<^verbatim>\<open>2**a\<close> in \<open>int64\<close>: the power of the 64-bit word 2, which is 0 from exponent 64 on.\<close>

definition power2 :: "nat ndarray \<Rightarrow> int64 ndarray" where
  "power2 a = \<lparr>shape = shape a, data = map (\<lambda>e. 2 ^ e) (data a)\<rparr>"

definition to_int64 :: "int \<Rightarrow> int64" where
  "to_int64 v = word_of_int v"

text \<open>
  \<^verbatim>\<open>x & to_and\<close> for \<open>x\<close> of shape \<open>(N, 1)\<close> and \<open>to_and\<close> of shape \<open>(1, B)\<close>:
  broadcasting gives the \<open>(N, B)\<close> array of all pairs.
\<close>

definition bitwise_and_outer :: "int ndarray \<Rightarrow> int64 ndarray \<Rightarrow> int64 ndarray" where
  "bitwise_and_outer x m =
     \<lparr>shape = [length (data x), length (data m)],
      data = concat (map (\<lambda>v. map (\<lambda>t. to_int64 v AND t) (data m)) (data x))\<rparr>"

text \<open>\<^verbatim>\<open>.astype(bool).astype(int)\<close>: 1 where the element is not zero, 0 elsewhere.\<close>

definition astype_bool_int :: "int64 ndarray \<Rightarrow> int ndarray" where
  "astype_bool_int a = \<lparr>shape = shape a, data = map (\<lambda>w. if w \<noteq> 0 then 1 else 0) (data a)\<rparr>"

text \<open>
  \<^verbatim>\<open>
  def unpackbits(x,num_bits = 16):
      xshape = list(x.shape)
      x = x.reshape([-1,1])
      to_and = 2**np.arange(num_bits).reshape([1,num_bits])
      return (x & to_and).astype(bool).astype(int).reshape(xshape + [num_bits])
  \<close>
\<close>

definition unpackbits :: "int ndarray \<Rightarrow> nat \<Rightarrow> py_error + int ndarray" where
  "unpackbits x num_bits =
     (let xshape = shape x in
      bind_err (reshape x [- 1, 1]) (\<lambda>x1.
      bind_err (reshape (arange num_bits) [1, int num_bits]) (\<lambda>ar.
      let to_and = power2 ar in
      reshape (astype_bool_int (bitwise_and_outer x1 to_and))
        (map int xshape @ [int num_bits]))))"

text \<open>
  Row \<open>i\<close> of the result, for the sample \<open>v\<close> at position \<open>i\<close>: the tests of \<open>v\<close> against
  the masks \<open>2**0, \<dots>, 2**(num_bits - 1)\<close>.
\<close>

definition sample_bits :: "int \<Rightarrow> nat \<Rightarrow> int list" where
  "sample_bits v n = map (\<lambda>b. if to_int64 v AND 2 ^ b \<noteq> 0 then 1 else 0) [0..<n]"

text \<open>The specification's recombination of a row of bits: the sum of bit times \<open>2 ^ position\<close>.\<close>

definition recombine :: "int list \<Rightarrow> int" where
  "recombine bits = (\<Sum>b\<leftarrow>[0..<length bits]. bits ! b * 2 ^ b)"


section \<open>The edge detector\<close>

text \<open>
  \<^verbatim>\<open>np.diff(a, axis = 0)\<close>: the differences of consecutive entries along the first axis.
  The first axis becomes one shorter (an empty one stays empty); an array without axes
  is refused. In row-major order, the entry one step further along the first axis is
  the product of the other axis lengths further on.
\<close>

definition diff_axis0 :: "int ndarray \<Rightarrow> py_error + int ndarray" where
  "diff_axis0 a =
     (case shape a of
        [] \<Rightarrow> Inl ValueError
      | n # rest \<Rightarrow>
          (let w = prod_list rest
           in Inr \<lparr>shape = (n - 1) # rest,
                   data = map2 (\<lambda>later earlier. later - earlier) (drop w (data a)) (data a)\<rparr>))"

text \<open>\<^verbatim>\<open>mult*a\<close>, \<^verbatim>\<open>a > 0\<close> and \<^verbatim>\<open>a < 0\<close>, entry by entry.\<close>

definition scalar_times :: "int \<Rightarrow> int ndarray \<Rightarrow> int ndarray" where
  "scalar_times m a = \<lparr>shape = shape a, data = map (\<lambda>v. m * v) (data a)\<rparr>"

definition greater0 :: "int ndarray \<Rightarrow> bool ndarray" where
  "greater0 a = \<lparr>shape = shape a, data = map (\<lambda>v. v > 0) (data a)\<rparr>"

definition less0 :: "int ndarray \<Rightarrow> bool ndarray" where
  "less0 a = \<lparr>shape = shape a, data = map (\<lambda>v. v < 0) (data a)\<rparr>"

text \<open>
  \<^verbatim>\<open>np.where(cond)\<close>: one index array for each axis, holding the coordinates of the
  true entries in row-major order. The coordinate on axis \<open>d\<close> of the entry at flat
  position \<open>k\<close> is \<open>k\<close> divided by the product of the later axis lengths, modulo the
  length of axis \<open>d\<close>.
\<close>

definition np_where :: "bool ndarray \<Rightarrow> nat list list" where
  "np_where c =
     (let idx = filter (\<lambda>k. data c ! k) [0..<length (data c)]
      in map (\<lambda>d. map (\<lambda>k. (k div prod_list (drop (Suc d) (shape c))) mod (shape c ! d)) idx)
           [0..<length (shape c)])"

text \<open>Indexing a tuple: \<^verbatim>\<open>t[i]\<close> raises \<^verbatim>\<open>IndexError\<close> out of range.\<close>

definition tuple_get :: "'a list \<Rightarrow> nat \<Rightarrow> py_error + 'a" where
  "tuple_get t i = (if i < length t then Inr (t ! i) else Inl IndexError)"

text \<open>\<^verbatim>\<open>np.unique(a)\<close>: the distinct elements, in increasing order.\<close>

definition unique :: "nat list \<Rightarrow> nat list" where
  "unique xs = sort (remdups xs)"

text \<open>\<^verbatim>\<open>a[mask]\<close> for a boolean mask as long as \<open>a\<close>: the elements where the mask is true.\<close>

definition mask_select :: "'a list \<Rightarrow> bool list \<Rightarrow> 'a list" where
  "mask_select xs msk = map fst (filter snd (zip xs msk))"

text \<open>
  The loop that fills a dictionary of events, written twice in the source, for the onsets
  and for the offsets:
  \<^verbatim>\<open>
      for ichan in np.unique(sync_idx_onset[1]):
          onsets[ichan] = sync_idx_onset[0][
              sync_idx_onset[1] == ichan]/srate
  \<close>
  The division by the sampling rate is numpy's floating-point \<^verbatim>\<open>/\<close>, applied to every
  index; it is a parameter of the model.
\<close>

definition event_dict ::
    "(nat \<Rightarrow> 's \<Rightarrow> 't) \<Rightarrow> 's \<Rightarrow> nat list \<Rightarrow> nat list \<Rightarrow> (nat \<rightharpoonup> 't list)" where
  "event_dict true_divide srate rows cols =
     foldl (\<lambda>d ichan.
              d(ichan \<mapsto> map (\<lambda>r. true_divide r srate)
                            (mask_select rows (map (\<lambda>c. c = ichan) cols))))
       Map.empty (unique cols)"

text \<open>The two kinds of result: the unpacked trace, or the pair of onsets and offsets.\<close>

datatype 't sync_result =
  Binary "int ndarray"
  | Events "nat \<rightharpoonup> 't list" "nat \<rightharpoonup> 't list"

text \<open>
  \<^verbatim>\<open>
  def unpack_npix_sync(syncdat,srate=1,output_binary = False):
      dd = unpackbits(syncdat.flatten(),16)
      mult = 1
      if output_binary:
          return dd
      sync_idx_onset = np.where(mult*np.diff(dd,axis = 0)>0)
      sync_idx_offset = np.where(mult*np.diff(dd,axis = 0)<0)
      onsets = {}
      offsets = {}
      for ichan in np.unique(sync_idx_onset[1]): ...
      for ichan in np.unique(sync_idx_offset[1]): ...
      return onsets,offsets
  \<close>
\<close>

definition unpack_npix_sync ::
    "(nat \<Rightarrow> 's \<Rightarrow> 't) \<Rightarrow> int ndarray \<Rightarrow> 's \<Rightarrow> bool \<Rightarrow> py_error + 't sync_result" where
  "unpack_npix_sync true_divide syncdat srate output_binary =
     bind_err (unpackbits (flatten syncdat) 16) (\<lambda>dd.
     let mult = 1 in
     if output_binary then Inr (Binary dd)
     else
       bind_err (diff_axis0 dd) (\<lambda>df_on.
       let sync_idx_onset = np_where (greater0 (scalar_times mult df_on)) in
       bind_err (diff_axis0 dd) (\<lambda>df_off.
       let sync_idx_offset = np_where (less0 (scalar_times mult df_off)) in
       bind_err (tuple_get sync_idx_onset 1) (\<lambda>on_cols.
       bind_err (tuple_get sync_idx_onset 0) (\<lambda>on_rows.
       let onsets = event_dict true_divide srate on_rows on_cols in
       bind_err (tuple_get sync_idx_offset 1) (\<lambda>off_cols.
       bind_err (tuple_get sync_idx_offset 0) (\<lambda>off_rows.
       let offsets = event_dict true_divide srate off_rows off_cols in
       Inr (Events onsets offsets))))))))"

text \<open>
  The specification's reading of the edge detector, on a two-dimensional trace of
  samples by channels: the first difference along the time axis, and for each channel
  the sample indices, in increasing order, where the difference is positive (rising
  edges) or negative (falling edges).
\<close>

definition entry2 :: "'a ndarray \<Rightarrow> nat \<Rightarrow> nat \<Rightarrow> 'a" where
  "entry2 a i c = data a ! (i * (shape a ! 1) + c)"

definition first_difference :: "int ndarray \<Rightarrow> nat \<Rightarrow> nat \<Rightarrow> int" where
  "first_difference tr i c = entry2 tr (Suc i) c - entry2 tr i c"

definition rising_edges :: "int ndarray \<Rightarrow> nat \<Rightarrow> nat list" where
  "rising_edges tr c = filter (\<lambda>i. first_difference tr i c > 0) [0..<hd (shape tr) - 1]"

definition falling_edges :: "int ndarray \<Rightarrow> nat \<Rightarrow> nat list" where
  "falling_edges tr c = filter (\<lambda>i. first_difference tr i c < 0) [0..<hd (shape tr) - 1]"

text \<open>The dictionary that holds, for the channels with at least one edge, their times.\<close>

definition edge_times ::
    "(nat \<Rightarrow> 's \<Rightarrow> 't) \<Rightarrow> 's \<Rightarrow> nat \<Rightarrow> (nat \<Rightarrow> nat list) \<Rightarrow> (nat \<rightharpoonup> 't list)" where
  "edge_times true_divide srate nchan edges =
     (\<lambda>c. if c < nchan \<and> edges c \<noteq> [] then Some (map (\<lambda>i. true_divide i srate) (edges c))
          else None)"

text \<open>
  The unpacked trace of the sync data, in closed form: one row of 16 bits for each
  sample. It is what \<^verbatim>\<open>unpackbits(syncdat.flatten(),16)\<close> returns (lemma
  \<open>unpackbits_flatten\<close> below).
\<close>

definition trace16 :: "int ndarray \<Rightarrow> int ndarray" where
  "trace16 syncdat =
     \<lparr>shape = [length (data syncdat), 16],
      data = concat (map (\<lambda>v. sample_bits v 16) (data syncdat))\<rparr>"


section \<open>Memory-mapped recordings\<close>

text \<open>
  The file system holds the regular files that exist, each with its bytes. A recording
  is a sequence of 16-bit signed samples in the byte order of the machine, taken to be
  little-endian: the low byte first.
\<close>

type_synonym byte = "8 word"

type_synonym filesystem = "string \<rightharpoonup> byte list"




text \<open>
  \<^verbatim>\<open>a.transpose([1, 0])\<close> and \<^verbatim>\<open>a.T\<close> of a two-dimensional array: entry \<open>[j, i]\<close> of the
  result is entry \<open>[i, j]\<close> of \<open>a\<close>.
\<close>

definition transpose10 :: "'a ndarray \<Rightarrow> py_error + 'a ndarray" where
  "transpose10 a =
     (case shape a of
        [m, w] \<Rightarrow>
          Inr \<lparr>shape = [w, m],
               data = concat (map (\<lambda>j. map (\<lambda>i. data a ! (i * w + j)) [0..<m]) [0..<w])\<rparr>
      | _ \<Rightarrow> Inl ValueError)"

text \<open>\<^verbatim>\<open>a[i, j]\<close> for indices that are not negative: \<^verbatim>\<open>IndexError\<close> out of range.\<close>

definition getitem2 :: "'a ndarray \<Rightarrow> nat \<Rightarrow> nat \<Rightarrow> py_error + 'a" where
  "getitem2 a i j =
     (case shape a of
        [m, w] \<Rightarrow> if i < m \<and> j < w then Inr (data a ! (i * w + j)) else Inl IndexError
      | _ \<Rightarrow> Inl IndexError)"





section \<open>Raw chunks and the sync channel\<close>

text \<open>
  The paths that both extraction functions derive from the path of the binary file:
  \<^verbatim>\<open>bp[-4:]\<close>, \<^verbatim>\<open>bn = bp.split('/')[-1]\<close> and \<^verbatim>\<open>dp = bp[:-len(bn)-1]\<close>.
\<close>

definition last4 :: "string \<Rightarrow> string" where
  "last4 bp = drop (length bp - 4) bp"

definition binary_name :: "string \<Rightarrow> string" where
  "binary_name bp = rev (takeWhile (\<lambda>ch. ch \<noteq> CHR ''/'') (rev bp))"

definition data_path :: "string \<Rightarrow> string" where
  "data_path bp = take (length bp - (length (binary_name bp) + 1)) bp"



text \<open>
  The loop of \<open>extract_syncChan\<close> that reads the sync channel, sample by sample:
  \<^verbatim>\<open>
      i=30000
      while i<60000:
          print('{0:.3f}%...'.format(100*i/(os.path.getsize(bp)/(Nchans*2))))
          f_src.seek(int(i*Nchans+syncChan)*2) # get to 385*i+384 channels,
          b = f_src.read(2) # then read 2 bytes = 16bits
          if not b:
              break
          sc+=b
          print(i)
          print(len(sc)/4)
          i+=1
  \<close>
  The progress line divides by the number of samples of the file: it raises
  \<^verbatim>\<open>ZeroDivisionError\<close> for an empty file and for \<open>Nchans = 0\<close>. Reading at or past the
  end of the file gives no bytes, and fewer than two when only one is left.
\<close>

function read_sync :: "byte list \<Rightarrow> nat \<Rightarrow> nat \<Rightarrow> nat \<Rightarrow> byte list \<Rightarrow> py_error + byte list" where
  "read_sync file Nchans syncChan i sc =
     (if i < 60000 then
        (if Nchans * 2 = 0 \<or> length file = 0 then Inl ZeroDivisionError
         else
           (let b = take 2 (drop ((i * Nchans + syncChan) * 2) file)
            in if b = [] then Inr sc
               else read_sync file Nchans syncChan (i + 1) (sc @ b)))
      else Inr sc)"
  by pat_completeness auto
termination
  by (relation "measure (\<lambda>(file, Nchans, syncChan, i, sc). 60000 - i)") auto

text \<open>\<^verbatim>\<open>np.unpackbits\<close> of an array of bytes: the 8 bits of each byte, the highest first.\<close>

definition np_unpackbits :: "byte list \<Rightarrow> int list" where
  "np_unpackbits bs = concat (map (\<lambda>b. map (\<lambda>j. if bit b (7 - j) then 1 else 0) [0..<8]) bs)"

text \<open>
  \<^verbatim>\<open>
  def extract_syncChan(bp, syncChan=384, fs=30000, ampFactor=500, Nchans=385, save=0):
      assert bp[-4:]=='.bin'
      bn = bp.split('/')[-1] # binary name
      dp = bp[:-len(bn)-1] # data path
      rcn = '{}_sync.npy'.format(bn) # raw chunk name
      rcp = dp+'/'+rcn
      if os.path.isfile(rcp):
          return np.load(rcp)
      sc=b''
      with open(bp, 'rb') as f_src:
          ...
      sc = np.frombuffer(sc, dtype=np.uint8) # bytes to uint8
      sc = np.unpackbits(sc) # uint8 to binary bits
      Nsamples=int(len(sc)/16)
      sc = sc.reshape((Nsamples, 16)).T
      if save:
          np.save(rcp, sc)
      return sc
  \<close>
  \<open>fs\<close> and \<open>ampFactor\<close> are not used by the source. What \<^verbatim>\<open>np.load\<close> makes of the bytes
  of a cached file is a parameter. The file that \<^verbatim>\<open>np.save\<close> writes is not tracked: the
  model gives the value returned.
\<close>

definition extract_syncChan ::
    "filesystem \<Rightarrow> (byte list \<Rightarrow> py_error + int ndarray) \<Rightarrow> string \<Rightarrow> nat \<Rightarrow> nat
      \<Rightarrow> py_error + int ndarray" where
  "extract_syncChan fs load bp syncChan Nchans =
     (if last4 bp \<noteq> ''.bin'' then Inl AssertionError
      else
        (let bn = binary_name bp; dp = data_path bp;
             rcn = bn @ ''_sync.npy'';
             rcp = dp @ ''/'' @ rcn
         in case fs rcp of
              Some cached \<Rightarrow> load cached
            | None \<Rightarrow>
                (case fs bp of
                   None \<Rightarrow> Inl FileNotFoundError
                 | Some file \<Rightarrow>
                     bind_err (read_sync file Nchans syncChan 30000 []) (\<lambda>sc.
                     let bits = np_unpackbits sc;
                         Nsamples = length bits div 16
                     in bind_err (reshape \<lparr>shape = [length bits], data = bits\<rparr> [int Nsamples, 16])
                          transpose10))))"

text \<open>The bytes that the pass of the loop for sample \<open>i\<close> reads.\<close>

definition chunk :: "byte list \<Rightarrow> nat \<Rightarrow> nat \<Rightarrow> nat \<Rightarrow> byte list" where
  "chunk file Nchans syncChan i = take 2 (drop ((i * Nchans + syncChan) * 2) file)"

text \<open>
  The samples of the sync channel that the file holds from sample 30000 on and before
  sample 60000: those whose first byte lies inside the file.
\<close>

definition sync_samples :: "byte list \<Rightarrow> nat \<Rightarrow> nat \<Rightarrow> nat list" where
  "sync_samples file Nchans syncChan =
     takeWhile (\<lambda>i. (i * Nchans + syncChan) * 2 < length file) [30000..<60000]"
section \<open>Properties of the bit unpacker\<close>

lemma reshape_col: "reshape a [- 1, 1] = Inr \<lparr>shape = [length (data a), 1], data = data a\<rparr>"
  by (simp add: reshape_def)

lemma reshape_row:
  "length (data a) = n \<Longrightarrow> reshape a [1, int n] = Inr \<lparr>shape = [1, n], data = data a\<rparr>"
  by (auto simp add: reshape_def Let_def)

lemma reshape_nat:
  "reshape a (map int ds) =
     (if prod_list ds = length (data a) then Inr \<lparr>shape = ds, data = data a\<rparr> else Inl ValueError)"
proof -
  have f: "filter (\<lambda>d. d \<noteq> - 1) (map int ds) = map int ds"
    by (induction ds) auto
  have g: "filter (\<lambda>d. d = - 1) (map int ds) = []"
    by (induction ds) auto
  have h: "- 1 \<notin> set (map int ds)" by auto
  have k: "\<not> list_ex (\<lambda>d. d < - 1) (map int ds)" by (auto simp add: list_ex_iff)
  have m: "map nat (map int ds) = ds" by (induction ds) auto
  show ?thesis
    unfolding reshape_def Let_def f g m using h k by (simp only: if_False list.size) auto
qed

lemma length_concat_rows:
  "(\<And>x. length (f x) = n) \<Longrightarrow> length (concat (map f xs)) = length xs * n"
  by (induction xs) auto

lemma map_concat_rows:
  "map g (concat (map (\<lambda>v. map (h v) ys) xs)) = concat (map (\<lambda>v. map (\<lambda>t. g (h v t)) ys) xs)"
  by (induction xs) auto

lemma unpackbits_eq:
  assumes "wf_ndarray x"
  shows "unpackbits x n =
     Inr \<lparr>shape = shape x @ [n], data = concat (map (\<lambda>v. sample_bits v n) (data x))\<rparr>"
proof -
  let ?anded = "concat (map (\<lambda>v. map (\<lambda>t. to_int64 v AND t) (map (\<lambda>e. 2 ^ e) [0..<n])) (data x))"
  have len: "length ?anded = length (data x) * n"
    by (rule length_concat_rows) simp
  have row: "reshape (arange n) [1, int n] = Inr \<lparr>shape = [1, n], data = [0..<n]\<rparr>"
    using reshape_row [of "arange n" n] by (simp add: arange_def)
  have shp: "map int (shape x) @ [int n] = map int (shape x @ [n])" by simp
  have bits: "map (\<lambda>w. if w \<noteq> 0 then 1 else 0) ?anded = concat (map (\<lambda>v. sample_bits v n) (data x))"
    by (simp add: map_concat_rows sample_bits_def comp_def)
  have "unpackbits x n =
      reshape \<lparr>shape = [length (data x), n], data = map (\<lambda>w. if w \<noteq> 0 then 1 else 0) ?anded\<rparr>
        (map int (shape x @ [n]))"
    unfolding unpackbits_def Let_def reshape_col row shp
    by (simp add: astype_bool_int_def bitwise_and_outer_def power2_def bind_err_def)
  also have "\<dots> = Inr \<lparr>shape = shape x @ [n], data = map (\<lambda>w. if w \<noteq> 0 then 1 else 0) ?anded\<rparr>"
    unfolding reshape_nat using assms len by (simp add: wf_ndarray_def)
  finally show ?thesis by (simp only: bits)
qed

lemma nth_concat_rows:
  "(\<And>x. length (f x) = n) \<Longrightarrow> i < length xs \<Longrightarrow> b < n \<Longrightarrow>
   concat (map f xs) ! (i * n + b) = f (xs ! i) ! b"
proof (induction xs arbitrary: i)
  case Nil
  then show ?case by simp
next
  case (Cons a xs)
  show ?case
  proof (cases i)
    case 0
    with Cons.prems show ?thesis by (simp add: nth_append)
  next
    case (Suc j)
    with Cons.prems have "j < length xs" by simp
    from Cons.IH [OF Cons.prems(1) this Cons.prems(3)] Suc Cons.prems(1) [of a]
    show ?thesis by (simp add: nth_append add.assoc)
  qed
qed

lemma row_concat_rows:
  "(\<And>x. length (f x) = n) \<Longrightarrow> i < length xs \<Longrightarrow>
   take n (drop (i * n) (concat (map f xs))) = f (xs ! i)"
proof (induction xs arbitrary: i)
  case Nil
  then show ?case by simp
next
  case (Cons a xs)
  show ?case
  proof (cases i)
    case 0
    with Cons.prems(1) [of a] show ?thesis by simp
  next
    case (Suc j)
    with Cons.prems have "j < length xs" by simp
    from Cons.IH [OF Cons.prems(1) this] Suc Cons.prems(1) [of a]
    show ?thesis by simp
  qed
qed

lemma mask_test:
  "to_int64 v AND 2 ^ b \<noteq> 0 \<longleftrightarrow> b < 64 \<and> bit v b"
  by (simp add: to_int64_def and_exp_eq_0_iff_not_bit bit_word_of_int_iff)

lemma bit_int_div_mod: "(v div 2 ^ b) mod 2 = (if bit v b then 1 else 0)" for v :: int
  by (simp add: bit_iff_odd mod_2_eq_odd)

lemma sample_bits_nth:
  "b < n \<Longrightarrow> sample_bits v n ! b = (if b < 64 then (v div 2 ^ b) mod 2 else 0)"
  by (simp add: sample_bits_def mask_test bit_int_div_mod)

lemma length_sample_bits: "length (sample_bits v n) = n"
  by (simp add: sample_bits_def)

lemma sample_bits_01: "e \<in> set (sample_bits v n) \<Longrightarrow> e = 0 \<or> e = 1"
  by (auto simp add: sample_bits_def)

lemma recombine_snoc: "recombine (xs @ [a]) = recombine xs + a * 2 ^ length xs"
proof -
  have eq: "map (\<lambda>b. (xs @ [a]) ! b * 2 ^ b) [0..<length xs] = map (\<lambda>b. xs ! b * 2 ^ b) [0..<length xs]"
    by (rule map_cong) (simp_all add: nth_append)
  show ?thesis by (simp add: recombine_def eq)
qed

lemma sample_bits_Suc:
  "sample_bits v (Suc n) = sample_bits v n @ [if to_int64 v AND 2 ^ n \<noteq> 0 then 1 else 0]"
  by (simp add: sample_bits_def)

lemma recombine_sample_bits:
  "recombine (sample_bits v n) = v mod 2 ^ min n 64"
proof (induction n)
  case 0
  then show ?case by (simp add: recombine_def sample_bits_def)
next
  case (Suc n)
  have step: "recombine (sample_bits v (Suc n)) =
      recombine (sample_bits v n) + sample_bits v (Suc n) ! n * 2 ^ n"
    by (simp add: sample_bits_Suc recombine_snoc length_sample_bits nth_append)
  show ?case
  proof (cases "n < 64")
    case True
    then have "recombine (sample_bits v (Suc n)) = take_bit n v + of_bool (bit v n) * 2 ^ n"
      using Suc step by (simp add: sample_bits_nth take_bit_eq_mod bit_int_div_mod)
    also have "\<dots> = take_bit (Suc n) v"
      by (simp add: take_bit_Suc_from_most)
    finally show ?thesis
      using True by (simp add: take_bit_eq_mod min_def)
  next
    case False
    then have "recombine (sample_bits v (Suc n)) = recombine (sample_bits v n)"
      using step by (simp add: sample_bits_nth)
    with Suc False show ?thesis by (simp add: min_def)
  qed
qed

text \<open>
  Claim C2, amended. For every sample and every bit width, the weighted sum of the bits
  that \<open>unpackbits\<close> returns for the sample, bit \<open>b\<close> times \<open>2 ^ b\<close>, is the sample modulo
  2 to the power of the smaller of \<open>num_bits\<close> and 64: modulo \<open>2 ^ num_bits\<close> for every bit
  width of at most 64.
\<close>

theorem unpackbits_recombine:
  assumes "wf_ndarray x" and "i < length (data x)"
  shows "\<exists>r. unpackbits x num_bits = Inr r \<and>
             recombine (take num_bits (drop (i * num_bits) (data r))) =
               data x ! i mod 2 ^ min num_bits 64"
  using assms
  by (simp add: unpackbits_eq row_concat_rows [where n = num_bits] length_sample_bits
      recombine_sample_bits)

theorem unpackbits_recombine_witness:
  "wf_ndarray \<lparr>shape = [2], data = [5, - 3]\<rparr>
   \<and> (1::nat) < length (data \<lparr>shape = [2], data = [5, - 3 :: int]\<rparr>)
   \<and> (\<exists>r. unpackbits \<lparr>shape = [2], data = [5, - 3]\<rparr> 16 = Inr r \<and>
          recombine (take 16 (drop (1 * 16) (data r))) = 65533 \<and> (- 3 :: int) mod 2 ^ 16 = 65533)"
  using unpackbits_recombine [of "\<lparr>shape = [2], data = [5, - 3]\<rparr>" 1 16]
  by (simp add: wf_ndarray_def)

text \<open>
  For the sample \<open>-1\<close> and the bit width 65 column 64 is 0, since the mask \<open>2**64\<close> is 0
  in \<open>int64\<close>: the weighted sum is \<open>2 ^ 64 - 1\<close>, and \<open>-1\<close> modulo \<open>2 ^ 65\<close> is
  \<open>2 ^ 65 - 1\<close>.
\<close>

theorem unpackbits_recombine_counterexample:
  "unpackbits \<lparr>shape = [1], data = [- 1]\<rparr> 65 = Inr \<lparr>shape = [1, 65], data = replicate 64 1 @ [0]\<rparr>
   \<and> recombine (take 65 (drop (0 * 65) (replicate 64 1 @ [0]))) = 2 ^ 64 - 1
   \<and> (- 1 :: int) mod 2 ^ 65 = 2 ^ 65 - 1
   \<and> recombine (take 65 (drop (0 * 65) (replicate 64 1 @ [0]))) \<noteq> (- 1) mod 2 ^ 65"
proof -
  have r: "unpackbits \<lparr>shape = [1], data = [- 1]\<rparr> 65 =
      Inr \<lparr>shape = [1, 65], data = replicate 64 1 @ [0]\<rparr>"
    by (simp add: unpackbits_eq wf_ndarray_def) code_simp
  have s: "recombine (take 65 (drop (0 * 65) (replicate 64 1 @ [0]))) = 2 ^ 64 - 1"
    by code_simp
  have m: "(- 1 :: int) mod 2 ^ 65 = 2 ^ 65 - 1"
    by simp
  from r s m show ?thesis by simp
qed

text \<open>
  Claim C6, amended. For a one-dimensional array of \<open>N\<close> samples the result has shape
  \<open>(N, num_bits)\<close>, every entry is 0 or 1, and entry \<open>[i, b]\<close> is bit \<open>b\<close> of the
  two's complement value of sample \<open>i\<close> in every column \<open>b < 64\<close>, and 0 in every column
  from 64 on.
\<close>

theorem unpackbits_entries:
  assumes "wf_ndarray x" and "shape x = [N]"
  shows "\<exists>r. unpackbits x num_bits = Inr r \<and> shape r = [N, num_bits]
           \<and> (\<forall>e \<in> set (data r). e = 0 \<or> e = 1)
           \<and> (\<forall>i < N. \<forall>b < num_bits.
                 data r ! (i * num_bits + b) =
                   (if b < 64 then (data x ! i div 2 ^ b) mod 2 else 0))"
proof -
  let ?r = "\<lparr>shape = shape x @ [num_bits],
             data = concat (map (\<lambda>v. sample_bits v num_bits) (data x))\<rparr>"
  have len: "length (data x) = N"
    using assms by (simp add: wf_ndarray_def)
  have r: "unpackbits x num_bits = Inr ?r"
    using assms(1) by (rule unpackbits_eq)
  have shp: "shape ?r = [N, num_bits]"
    using assms(2) by simp
  have bin: "\<forall>e \<in> set (data ?r). e = 0 \<or> e = 1"
    by (auto dest: sample_bits_01)
  have ent: "\<forall>i < N. \<forall>b < num_bits.
      data ?r ! (i * num_bits + b) = (if b < 64 then (data x ! i div 2 ^ b) mod 2 else 0)"
    using len by (simp add: nth_concat_rows [where n = num_bits] length_sample_bits sample_bits_nth)
  from r shp bin ent show ?thesis by blast
qed

theorem unpackbits_entries_witness:
  "wf_ndarray \<lparr>shape = [2], data = [6, - 1]\<rparr>
   \<and> shape \<lparr>shape = [2], data = [6, - 1 :: int]\<rparr> = [2]
   \<and> (\<exists>r. unpackbits \<lparr>shape = [2], data = [6, - 1]\<rparr> 3 = Inr r \<and> shape r = [2, 3]
          \<and> (\<forall>e \<in> set (data r). e = 0 \<or> e = 1)
          \<and> (\<forall>i < 2. \<forall>b < 3.
                data r ! (i * 3 + b) =
                  (if b < 64 then (data \<lparr>shape = [2], data = [6, - 1 :: int]\<rparr> ! i div 2 ^ b) mod 2 else 0)))"
  using unpackbits_entries [of "\<lparr>shape = [2], data = [6, - 1]\<rparr>" 2 3]
  by (simp add: wf_ndarray_def)

text \<open>
  For the sample \<open>-2\<close> and the bit width 66 the entry in column 65 is 0, and bit 65 of
  \<open>-2\<close> is 1.
\<close>

theorem unpackbits_entries_counterexample:
  "unpackbits \<lparr>shape = [1], data = [- 2]\<rparr> 66 =
      Inr \<lparr>shape = [1, 66], data = 0 # replicate 63 1 @ [0, 0]\<rparr>
   \<and> (0 # replicate 63 1 @ [0, 0 :: int]) ! (0 * 66 + 65) = 0
   \<and> ((- 2 :: int) div 2 ^ 65) mod 2 = 1
   \<and> (0 # replicate 63 1 @ [0, 0 :: int]) ! (0 * 66 + 65) \<noteq> ((- 2) div 2 ^ 65) mod 2"
proof -
  have r: "unpackbits \<lparr>shape = [1], data = [- 2]\<rparr> 66 =
      Inr \<lparr>shape = [1, 66], data = 0 # replicate 63 1 @ [0, 0]\<rparr>"
    by (simp add: unpackbits_eq wf_ndarray_def) code_simp
  have e: "(0 # replicate 63 1 @ [0, 0 :: int]) ! (0 * 66 + 65) = 0"
    by code_simp
  have b: "((- 2 :: int) div 2 ^ 65) mod 2 = 1"
    by simp
  from r e b show ?thesis by simp
qed



section \<open>Properties of the edge detector\<close>

lemma filter_eq_upt:
  "filter (\<lambda>j. j = c \<and> P) [0..<w] = (if c < w \<and> P then [c] else [])"
  by (induction w) auto

lemma block_rows:
  assumes "c < w"
  shows "map (\<lambda>k. k div w) (filter (\<lambda>k. Q k \<and> k mod w = c) [m * w..<m * w + w]) =
           (if Q (m * w + c) then [m] else [])"
proof -
  have blk: "[m * w..<m * w + w] = map (\<lambda>j. j + m * w) [0..<w]"
    by (simp add: map_add_upt add.commute)
  have sel: "filter ((\<lambda>k. Q k \<and> k mod w = c) \<circ> (\<lambda>j. j + m * w)) [0..<w] =
             filter (\<lambda>j. j = c \<and> Q (m * w + c)) [0..<w]"
    by (rule filter_cong) (auto simp add: add.commute)
  show ?thesis
    unfolding blk filter_map sel filter_eq_upt using assms by simp
qed

lemma rows_of_channel:
  assumes "c < w"
  shows "map (\<lambda>k. k div w) (filter (\<lambda>k. Q k \<and> k mod w = c) [0..<m * w]) =
           filter (\<lambda>i. Q (i * w + c)) [0..<m]"
proof (induction m)
  case 0
  show ?case by simp
next
  case (Suc m)
  have split: "[0..<Suc m * w] = [0..<m * w] @ [m * w..<m * w + w]"
    using upt_add_eq_append [of 0 "m * w" w] by (simp add: add.commute)
  show ?case
    unfolding split filter_append map_append Suc.IH block_rows [OF assms]
    by simp
qed

lemma mask_select_maps:
  "mask_select (map f idx) (map (\<lambda>c'. c' = c) (map g idx)) = map f (filter (\<lambda>k. g k = c) idx)"
  by (induction idx) (auto simp add: mask_select_def)

lemma foldl_update:
  "foldl (\<lambda>d k. d(k \<mapsto> f k)) m ks = (\<lambda>c. if c \<in> set ks then Some (f c) else m c)"
  by (induction ks arbitrary: m) (auto simp add: fun_eq_iff)

lemma event_dict_eq:
  "event_dict td srate rows cols =
     (\<lambda>c. if c \<in> set cols
          then Some (map (\<lambda>r. td r srate) (mask_select rows (map (\<lambda>c'. c' = c) cols)))
          else None)"
  by (simp add: event_dict_def foldl_update unique_def)

lemma channel_present:
  assumes "0 < w"
  shows "c \<in> set (map (\<lambda>k. k mod w) (filter Q [0..<m * w])) \<longleftrightarrow>
           c < w \<and> filter (\<lambda>i. Q (i * w + c)) [0..<m] \<noteq> []"
proof (cases "c < w")
  case True
  have "c \<in> set (map (\<lambda>k. k mod w) (filter Q [0..<m * w])) \<longleftrightarrow>
          filter (\<lambda>k. Q k \<and> k mod w = c) [0..<m * w] \<noteq> []"
    by (auto simp add: filter_empty_conv)
  also have "\<dots> \<longleftrightarrow> map (\<lambda>k. k div w) (filter (\<lambda>k. Q k \<and> k mod w = c) [0..<m * w]) \<noteq> []"
    by simp
  finally show ?thesis
    using True by (simp only: rows_of_channel [OF True]) simp
next
  case False
  with assms show ?thesis by auto
qed

lemma np_where_2d:
  assumes "length bs = m * w"
  shows "np_where \<lparr>shape = [m, w], data = bs\<rparr> =
           [map (\<lambda>k. k div w) (filter (\<lambda>k. bs ! k) [0..<m * w]),
            map (\<lambda>k. k mod w) (filter (\<lambda>k. bs ! k) [0..<m * w])]"
proof -
  have two: "[0..<length [m, w]] = [0, Suc 0]"
    by (simp add: upt_rec)
  have rows: "map (\<lambda>k. (k div w) mod m) (filter (\<lambda>k. bs ! k) [0..<m * w]) =
              map (\<lambda>k. k div w) (filter (\<lambda>k. bs ! k) [0..<m * w])"
  proof (rule map_cong [OF refl])
    fix k assume "k \<in> set (filter (\<lambda>k. bs ! k) [0..<m * w])"
    then have "k < m * w" by simp
    then have "k div w < m"
      by (metis less_mult_imp_div_less)
    then show "(k div w) mod m = k div w" by simp
  qed
  show ?thesis
    unfolding np_where_def Let_def two using assms rows by simp
qed

lemma events_of_where:
  assumes "0 < w" and "length bs = m * w"
  shows "event_dict td srate (np_where \<lparr>shape = [m, w], data = bs\<rparr> ! 0)
           (np_where \<lparr>shape = [m, w], data = bs\<rparr> ! 1) =
         edge_times td srate w (\<lambda>c. filter (\<lambda>i. bs ! (i * w + c)) [0..<m])"
proof (rule ext)
  fix c
  let ?idx = "filter (\<lambda>k. bs ! k) [0..<m * w]"
  have present: "c \<in> set (map (\<lambda>k. k mod w) ?idx) \<longleftrightarrow>
                   c < w \<and> filter (\<lambda>i. bs ! (i * w + c)) [0..<m] \<noteq> []"
    using assms(1) by (rule channel_present)
  have sel: "c < w \<Longrightarrow>
      mask_select (map (\<lambda>k. k div w) ?idx) (map (\<lambda>c'. c' = c) (map (\<lambda>k. k mod w) ?idx)) =
      filter (\<lambda>i. bs ! (i * w + c)) [0..<m]"
    by (simp only: mask_select_maps filter_filter rows_of_channel)
  show "event_dict td srate (np_where \<lparr>shape = [m, w], data = bs\<rparr> ! 0)
           (np_where \<lparr>shape = [m, w], data = bs\<rparr> ! 1) c =
        edge_times td srate w (\<lambda>c. filter (\<lambda>i. bs ! (i * w + c)) [0..<m]) c"
    unfolding np_where_2d [OF assms(2)] event_dict_eq edge_times_def
    using present sel by (simp del: set_map set_filter)
qed

lemma diff_axis0_2d:
  "diff_axis0 \<lparr>shape = [n, w], data = ds\<rparr> =
     Inr \<lparr>shape = [n - 1, w], data = map2 (\<lambda>later earlier. later - earlier) (drop w ds) ds\<rparr>"
  by (simp add: diff_axis0_def)

lemma diff_nth:
  assumes "length ds = n * w" and "i < n - 1" and "c < w"
  shows "map2 (\<lambda>later earlier. later - earlier) (drop w ds) ds ! (i * w + c) =
           first_difference \<lparr>shape = [n, w], data = ds\<rparr> i c"
proof -
  have "Suc i * w \<le> (n - 1) * w"
    using assms(2) by (intro mult_le_mono1) simp
  then have bound: "i * w + c + w < n * w"
    using assms by (cases n) (simp_all add: algebra_simps)
  then have inb: "i * w + c < length (zip (drop w ds) ds)"
    using assms(1) by simp
  have "w \<le> length ds"
    using bound assms(1) by linarith
  then have "drop w ds ! (i * w + c) = ds ! (w + (i * w + c))"
    by (simp add: nth_drop)
  moreover have "Suc i * w + c = w + (i * w + c)"
    by simp
  ultimately show ?thesis
    using inb unfolding first_difference_def entry2_def
    by (simp add: add.assoc del: mult_Suc)
qed

lemma edge_times_cong:
  assumes "\<And>c. c < n \<Longrightarrow> f c = g c"
  shows "edge_times td srate n f = edge_times td srate n g"
  using assms by (auto simp add: edge_times_def fun_eq_iff)

lemma unpackbits_flatten: "unpackbits (flatten syncdat) 16 = Inr (trace16 syncdat)"
  by (simp add: unpackbits_eq wf_ndarray_def flatten_def trace16_def)

lemma length_trace16: "length (data (trace16 syncdat)) = length (data syncdat) * 16"
  by (simp add: trace16_def length_concat_rows [where n = 16] length_sample_bits)

lemma detected_edges:
  fixes ds :: "int list"
  assumes "length ds = n * 16"
  defines "df \<equiv> \<lparr>shape = [n - 1, 16],
                  data = map2 (\<lambda>later earlier. later - earlier) (drop 16 ds) ds\<rparr>"
  shows "event_dict td srate (np_where (greater0 (scalar_times 1 df)) ! 0)
           (np_where (greater0 (scalar_times 1 df)) ! 1) =
         edge_times td srate 16 (rising_edges \<lparr>shape = [n, 16], data = ds\<rparr>)"
    and "event_dict td srate (np_where (less0 (scalar_times 1 df)) ! 0)
           (np_where (less0 (scalar_times 1 df)) ! 1) =
         edge_times td srate 16 (falling_edges \<lparr>shape = [n, 16], data = ds\<rparr>)"
proof -
  let ?d = "map2 (\<lambda>later earlier. later - earlier) (drop 16 ds) ds"
  have len: "length ?d = (n - 1) * 16"
    using assms(1) by (simp add: diff_mult_distrib)
  have nth: "?d ! (i * 16 + c) = first_difference \<lparr>shape = [n, 16], data = ds\<rparr> i c"
    if "i < n - 1" and "c < 16" for i c
    using assms(1) that by (rule diff_nth)
  have inb: "i * 16 + c < length ?d" if "i < n - 1" and "c < 16" for i c
  proof -
    have "Suc i * 16 \<le> (n - 1) * 16"
      using that(1) by (intro mult_le_mono1) simp
    with that(2) len show ?thesis by simp
  qed
  have g: "greater0 (scalar_times 1 df) = \<lparr>shape = [n - 1, 16], data = map (\<lambda>v. 0 < v) ?d\<rparr>"
    by (simp add: greater0_def scalar_times_def df_def)
  have l: "less0 (scalar_times 1 df) = \<lparr>shape = [n - 1, 16], data = map (\<lambda>v. v < 0) ?d\<rparr>"
    by (simp add: less0_def scalar_times_def df_def)
  have up: "filter (\<lambda>i. map (\<lambda>v. 0 < v) ?d ! (i * 16 + c)) [0..<n - 1] =
            rising_edges \<lparr>shape = [n, 16], data = ds\<rparr> c" if "c < 16" for c
    unfolding rising_edges_def
  proof (rule filter_cong)
    fix i assume "i \<in> set [0..<hd (shape \<lparr>shape = [n, 16], data = ds\<rparr>) - 1]"
    then have i: "i < n - 1" by simp
    show "map (\<lambda>v. 0 < v) ?d ! (i * 16 + c) =
            (0 < first_difference \<lparr>shape = [n, 16], data = ds\<rparr> i c)"
      using inb [OF i that] nth [OF i that] by (simp only: nth_map)
  qed simp
  have down: "filter (\<lambda>i. map (\<lambda>v. v < 0) ?d ! (i * 16 + c)) [0..<n - 1] =
            falling_edges \<lparr>shape = [n, 16], data = ds\<rparr> c" if "c < 16" for c
    unfolding falling_edges_def
  proof (rule filter_cong)
    fix i assume "i \<in> set [0..<hd (shape \<lparr>shape = [n, 16], data = ds\<rparr>) - 1]"
    then have i: "i < n - 1" by simp
    show "map (\<lambda>v. v < 0) ?d ! (i * 16 + c) =
            (first_difference \<lparr>shape = [n, 16], data = ds\<rparr> i c < 0)"
      using inb [OF i that] nth [OF i that] by (simp only: nth_map)
  qed simp
  have "event_dict td srate (np_where (greater0 (scalar_times 1 df)) ! 0)
           (np_where (greater0 (scalar_times 1 df)) ! 1) =
        edge_times td srate 16 (\<lambda>c. filter (\<lambda>i. map (\<lambda>v. 0 < v) ?d ! (i * 16 + c)) [0..<n - 1])"
    unfolding g by (rule events_of_where) (use len in simp_all)
  also have "\<dots> = edge_times td srate 16 (rising_edges \<lparr>shape = [n, 16], data = ds\<rparr>)"
    by (rule edge_times_cong) (rule up)
  finally show "event_dict td srate (np_where (greater0 (scalar_times 1 df)) ! 0)
           (np_where (greater0 (scalar_times 1 df)) ! 1) =
         edge_times td srate 16 (rising_edges \<lparr>shape = [n, 16], data = ds\<rparr>)" .
  have "event_dict td srate (np_where (less0 (scalar_times 1 df)) ! 0)
           (np_where (less0 (scalar_times 1 df)) ! 1) =
        edge_times td srate 16 (\<lambda>c. filter (\<lambda>i. map (\<lambda>v. v < 0) ?d ! (i * 16 + c)) [0..<n - 1])"
    unfolding l by (rule events_of_where) (use len in simp_all)
  also have "\<dots> = edge_times td srate 16 (falling_edges \<lparr>shape = [n, 16], data = ds\<rparr>)"
    by (rule edge_times_cong) (rule down)
  finally show "event_dict td srate (np_where (less0 (scalar_times 1 df)) ! 0)
           (np_where (less0 (scalar_times 1 df)) ! 1) =
         edge_times td srate 16 (falling_edges \<lparr>shape = [n, 16], data = ds\<rparr>)" .
qed

lemma tuple_get_where:
  assumes "length (shape c) = 2"
  shows "tuple_get (np_where c) 0 = Inr (np_where c ! 0)"
    and "tuple_get (np_where c) 1 = Inr (np_where c ! 1)"
  using assms by (simp_all add: tuple_get_def np_where_def)

lemma shape_compare:
  "shape (greater0 (scalar_times m a)) = shape a" "shape (less0 (scalar_times m a)) = shape a"
  by (simp_all add: greater0_def less0_def scalar_times_def)

lemma unpack_npix_sync_events:
  "unpack_npix_sync td syncdat srate False =
     Inr (Events (edge_times td srate 16 (rising_edges (trace16 syncdat)))
                 (edge_times td srate 16 (falling_edges (trace16 syncdat))))"
proof -
  define n where "n = length (data syncdat)"
  define ds where "ds = concat (map (\<lambda>v. sample_bits v 16) (data syncdat))"
  define df where "df = \<lparr>shape = [n - 1, 16],
                  data = map2 (\<lambda>later earlier. later - earlier) (drop 16 ds) ds\<rparr>"
  have tr: "trace16 syncdat = \<lparr>shape = [n, 16], data = ds\<rparr>"
    by (simp add: trace16_def n_def ds_def)
  have len: "length ds = n * 16"
    unfolding ds_def n_def by (simp add: length_concat_rows [where n = 16] length_sample_bits)
  have d: "diff_axis0 (trace16 syncdat) = Inr df"
    unfolding tr df_def by (rule diff_axis0_2d)
  have two: "length (shape (greater0 (scalar_times 1 df))) = 2"
    "length (shape (less0 (scalar_times 1 df))) = 2"
    by (simp_all add: shape_compare df_def)
  note ev = detected_edges [OF len, of td srate, folded df_def tr]
  show ?thesis
    unfolding unpack_npix_sync_def unpackbits_flatten
    by (simp only: bind_err_def sum.case Let_def if_False d tuple_get_where [OF two(1)]
        tuple_get_where [OF two(2)] ev)
qed

lemma entry2_trace16:
  assumes "i < length (data syncdat)" and "c < 16"
  shows "entry2 (trace16 syncdat) i c = (if bit (data syncdat ! i) c then 1 else 0)"
proof -
  have "entry2 (trace16 syncdat) i c = sample_bits (data syncdat ! i) 16 ! c"
    using assms
    by (simp add: entry2_def trace16_def nth_concat_rows [where n = 16] length_sample_bits)
  also have "\<dots> = (if bit (data syncdat ! i) c then 1 else 0)"
    using assms(2) by (simp add: sample_bits_nth bit_int_div_mod)
  finally show ?thesis .
qed

lemma strict_sorted_edges:
  "sorted_wrt (<) (rising_edges tr c)" "sorted_wrt (<) (falling_edges tr c)"
  by (simp_all add: rising_edges_def falling_edges_def sorted_wrt_filter)

text \<open>
  Claim C1. Without \<open>output_binary\<close>, \<open>unpack_npix_sync\<close> returns the two dictionaries
  that map each of the 16 channels with at least one rising (falling) edge to the sample
  indices of these edges, in increasing order, each divided by the sampling rate; an edge
  at sample \<open>i\<close> of channel \<open>c\<close> is a positive (negative) first difference of the unpacked
  trace there, along the time axis.
\<close>

theorem unpack_npix_sync_edges:
  "\<exists>dd. unpackbits (flatten syncdat) 16 = Inr dd
        \<and> shape dd = [length (data syncdat), 16]
        \<and> unpack_npix_sync true_divide syncdat srate False =
            Inr (Events (edge_times true_divide srate 16 (rising_edges dd))
                        (edge_times true_divide srate 16 (falling_edges dd)))
        \<and> (\<forall>c. sorted_wrt (<) (rising_edges dd c) \<and> sorted_wrt (<) (falling_edges dd c))"
  by (simp add: unpackbits_flatten unpack_npix_sync_events strict_sorted_edges)
    (simp add: trace16_def)

text \<open>
  An example: for the samples 0, 1, 3, 1, 0 at the sampling rate 2, line 0 rises after
  sample 0 and falls after sample 3, line 1 rises after sample 1 and falls after sample 2.
\<close>

theorem unpack_npix_sync_edges_witness:
  "\<exists>onsets offsets.
     unpack_npix_sync (\<lambda>i s. real i / s) \<lparr>shape = [5], data = [0, 1, 3, 1, 0]\<rparr> (2 :: real) False
       = Inr (Events onsets offsets)
     \<and> onsets 0 = Some [0] \<and> onsets 1 = Some [1 / 2] \<and> onsets 2 = None
     \<and> offsets 0 = Some [3 / 2] \<and> offsets 1 = Some [1] \<and> offsets 2 = None"
proof -
  let ?x = "\<lparr>shape = [5], data = [0, 1, 3, 1, 0 :: int]\<rparr>"
  from unpack_npix_sync_edges [of ?x "\<lambda>i s. real i / s" "2 :: real"]
  obtain dd where dd: "unpackbits (flatten ?x) 16 = Inr dd"
    and ev: "unpack_npix_sync (\<lambda>i s. real i / s) ?x (2 :: real) False =
            Inr (Events (edge_times (\<lambda>i s. real i / s) 2 16 (rising_edges dd))
                        (edge_times (\<lambda>i s. real i / s) 2 16 (falling_edges dd)))"
    by blast
  have tr: "dd = trace16 ?x"
    using dd by (simp add: unpackbits_flatten)
  have r: "rising_edges (trace16 ?x) 0 = [0]" "rising_edges (trace16 ?x) (Suc 0) = [1]"
    "rising_edges (trace16 ?x) 2 = []"
    by code_simp+
  have f: "falling_edges (trace16 ?x) 0 = [3]" "falling_edges (trace16 ?x) (Suc 0) = [2]"
    "falling_edges (trace16 ?x) 2 = []"
    by code_simp+
  show ?thesis
    unfolding ev tr by (simp add: edge_times_def r f)
qed


text \<open>
  Claim C5. With \<open>output_binary\<close>, \<open>unpack_npix_sync\<close> returns the unpacked trace itself:
  \<open>unpackbits\<close> of the flattened input at the bit width 16.
\<close>

theorem unpack_npix_sync_binary:
  "\<exists>dd. unpackbits (flatten syncdat) 16 = Inr dd
        \<and> unpack_npix_sync true_divide syncdat srate True = Inr (Binary dd)"
  by (simp add: unpackbits_flatten unpack_npix_sync_def bind_err_def)

text \<open>An example: the trace of the samples 5 and \<open>-1\<close>.\<close>

theorem unpack_npix_sync_binary_witness:
  "unpack_npix_sync (\<lambda>i s. real i / s) \<lparr>shape = [2], data = [5, - 1]\<rparr> (2 :: real) True =
     Inr (Binary \<lparr>shape = [2, 16],
                  data = [1, 0, 1, 0, 0, 0, 0, 0, 0, 0, 0, 0, 0, 0, 0, 0] @ replicate 16 1\<rparr>)"
proof -
  let ?x = "\<lparr>shape = [2], data = [5, - 1 :: int]\<rparr>"
  from unpack_npix_sync_binary [of ?x "\<lambda>i s. real i / s" "2 :: real"]
  obtain dd where dd: "unpackbits (flatten ?x) 16 = Inr dd"
    and bin: "unpack_npix_sync (\<lambda>i s. real i / s) ?x (2 :: real) True = Inr (Binary dd)"
    by blast
  have "unpackbits (flatten ?x) 16 =
      Inr \<lparr>shape = [2, 16],
            data = [1, 0, 1, 0, 0, 0, 0, 0, 0, 0, 0, 0, 0, 0, 0, 0] @ replicate 16 1\<rparr>"
    by (simp add: unpackbits_eq flatten_def wf_ndarray_def) code_simp
  with dd bin show ?thesis by simp
qed

lemma edge_times_None: "edges c = [] \<Longrightarrow> edge_times td srate n edges c = None"
  by (simp add: edge_times_def)

lemma edge_times_nonempty: "edge_times td srate n edges c \<noteq> Some []"
  by (simp add: edge_times_def)

lemma edge_times_empty:
  assumes "\<And>c. c < n \<Longrightarrow> edges c = []"
  shows "edge_times td srate n edges = Map.empty"
  using assms by (auto simp add: edge_times_def fun_eq_iff)

lemma constant_no_edges:
  assumes "\<forall>s \<in> set (data syncdat). s = v" and "c < 16"
  shows "rising_edges (trace16 syncdat) c = []" "falling_edges (trace16 syncdat) c = []"
proof -
  have "first_difference (trace16 syncdat) i c = 0" if "i < length (data syncdat) - 1" for i
  proof -
    from that have "i < length (data syncdat)" "Suc i < length (data syncdat)" by simp_all
    moreover from this assms(1) have "data syncdat ! i = v" "data syncdat ! Suc i = v"
      by (simp_all only: nth_mem)
    ultimately show ?thesis
      using assms(2) by (simp add: first_difference_def entry2_trace16)
  qed
  then show "rising_edges (trace16 syncdat) c = []" "falling_edges (trace16 syncdat) c = []"
    by (simp_all add: rising_edges_def falling_edges_def filter_empty_conv trace16_def)
qed


text \<open>
  Claim C4. A channel without rising edges is no key of the onsets, a channel without
  falling edges is no key of the offsets, and no key has an empty sequence of times; when
  all samples are equal (all zero, or all ones), both dictionaries are empty.
\<close>

theorem sparse_event_keys:
  "unpackbits (flatten syncdat) 16 = Inr (trace16 syncdat) \<and>
   (\<exists>onsets offsets.
      unpack_npix_sync true_divide syncdat srate False = Inr (Events onsets offsets)
      \<and> (\<forall>c. (rising_edges (trace16 syncdat) c = [] \<longrightarrow> onsets c = None)
             \<and> (falling_edges (trace16 syncdat) c = [] \<longrightarrow> offsets c = None)
             \<and> onsets c \<noteq> Some [] \<and> offsets c \<noteq> Some [])
      \<and> ((\<forall>s \<in> set (data syncdat). s = v) \<longrightarrow> onsets = Map.empty \<and> offsets = Map.empty))"
proof -
  let ?on = "edge_times true_divide srate 16 (rising_edges (trace16 syncdat))"
  let ?off = "edge_times true_divide srate 16 (falling_edges (trace16 syncdat))"
  have keys: "\<forall>c. (rising_edges (trace16 syncdat) c = [] \<longrightarrow> ?on c = None)
             \<and> (falling_edges (trace16 syncdat) c = [] \<longrightarrow> ?off c = None)
             \<and> ?on c \<noteq> Some [] \<and> ?off c \<noteq> Some []"
    by (simp add: edge_times_None edge_times_nonempty)
  have const: "(\<forall>s \<in> set (data syncdat). s = v) \<longrightarrow> ?on = Map.empty \<and> ?off = Map.empty"
    by (auto intro!: edge_times_empty constant_no_edges)
  from keys const unpack_npix_sync_events [of true_divide syncdat srate] unpackbits_flatten [of syncdat]
  show ?thesis by blast
qed

theorem sparse_event_keys_witness:
  "list_all (\<lambda>s. s = 0) (data \<lparr>shape = [3], data = [0, 0, 0 :: int]\<rparr>)
   \<and> rising_edges (trace16 \<lparr>shape = [3], data = [0, 0, 0]\<rparr>) 3 = []
   \<and> falling_edges (trace16 \<lparr>shape = [3], data = [0, 0, 0]\<rparr>) 3 = []
   \<and> (\<exists>onsets offsets.
        unpack_npix_sync (\<lambda>i s. real i / s) \<lparr>shape = [3], data = [0, 0, 0]\<rparr> (30000 :: real) False
          = Inr (Events onsets offsets)
        \<and> onsets 3 = None \<and> offsets 3 = None \<and> onsets = Map.empty \<and> offsets = Map.empty)"
proof -
  have c: "\<forall>s \<in> set (data \<lparr>shape = [3], data = [0, 0, 0 :: int]\<rparr>). s = 0"
    by simp
  have e: "rising_edges (trace16 \<lparr>shape = [3], data = [0, 0, 0]\<rparr>) 3 = []"
    "falling_edges (trace16 \<lparr>shape = [3], data = [0, 0, 0]\<rparr>) 3 = []"
    by (rule constant_no_edges [OF c], simp)+
  from sparse_event_keys [of "\<lparr>shape = [3], data = [0, 0, 0]\<rparr>" "\<lambda>i s. real i / s" "30000 :: real" 0] c e
  show ?thesis by force
qed

lemma bit_add_power:
  fixes base :: int
  assumes "\<not> bit base c"
  shows "bit (base + 2 ^ c) c' \<longleftrightarrow> c' = c \<or> bit base c'"
proof -
  have "base + 2 ^ c = base OR 2 ^ c"
    using assms by (intro disjunctive_add) (auto simp add: bit_exp_iff)
  then show ?thesis
    by (auto simp add: bit_or_iff bit_exp_iff)
qed

lemma step_edges:
  fixes base :: int
  assumes "c < 16" and "\<not> bit base c" and "c' < 16"
    and "data syncdat = replicate (Suc k) base @ replicate (Suc m) (base + 2 ^ c)"
  shows "rising_edges (trace16 syncdat) c' = (if c' = c then [k] else [])"
    and "falling_edges (trace16 syncdat) c' = []"
proof -
  have len: "length (data syncdat) = Suc k + Suc m"
    using assms(4) by simp
  have low: "data syncdat ! i = base" if "i \<le> k" for i
    using that by (simp add: assms(4) nth_append del: replicate_Suc)
  have high: "data syncdat ! i = base + 2 ^ c" if "k < i" "i < Suc k + Suc m" for i
    using that by (simp add: assms(4) nth_append del: replicate_Suc)
  have ent: "entry2 (trace16 syncdat) i c' =
      (if k < i \<and> c' = c then 1 else if bit base c' then 1 else 0)" if "i < Suc k + Suc m" for i
  proof (cases "k < i")
    case True
    with that assms(2,3) show ?thesis
      by (simp add: entry2_trace16 len high bit_add_power)
  next
    case False
    with that assms(3) show ?thesis
      by (simp add: entry2_trace16 len low)
  qed
  have diff: "first_difference (trace16 syncdat) i c' = (if i = k \<and> c' = c then 1 else 0)"
    if "i < k + Suc m" for i
    using that assms(2) by (auto simp add: first_difference_def ent)
  have hd: "hd (shape (trace16 syncdat)) - 1 = k + Suc m"
    by (simp add: trace16_def len)
  have "rising_edges (trace16 syncdat) c' = filter (\<lambda>i. i = k \<and> c' = c) [0..<k + Suc m]"
    unfolding rising_edges_def hd
  proof (rule filter_cong [OF refl])
    fix i assume "i \<in> set [0..<k + Suc m]"
    then have "i < k + Suc m" by auto
    from diff [OF this] show "(0 < first_difference (trace16 syncdat) i c') = (i = k \<and> c' = c)"
      by simp
  qed
  then show "rising_edges (trace16 syncdat) c' = (if c' = c then [k] else [])"
    by (simp add: filter_eq_upt)
  have "falling_edges (trace16 syncdat) c' = filter (\<lambda>i. False) [0..<k + Suc m]"
    unfolding falling_edges_def hd
  proof (rule filter_cong [OF refl])
    fix i assume "i \<in> set [0..<k + Suc m]"
    then have "i < k + Suc m" by auto
    from diff [OF this] show "(first_difference (trace16 syncdat) i c' < 0) = False"
      by simp
  qed
  then show "falling_edges (trace16 syncdat) c' = []"
    by simp
qed

text \<open>
  Claim C3. For a step signal, \<open>k + 1\<close> samples with line \<open>c\<close> low followed by at least one
  sample with line \<open>c\<close> high and all other lines unchanged, the onsets hold the single time
  \<open>k\<close> divided by the sampling rate for channel \<open>c\<close> and nothing else, and the offsets are
  empty.
\<close>

theorem step_signal_onset:
  fixes base :: int
  assumes "c < 16" and "\<not> bit base c"
    and "data syncdat = replicate (Suc k) base @ replicate (Suc m) (base + 2 ^ c)"
  shows "unpack_npix_sync true_divide syncdat srate False =
           Inr (Events [c \<mapsto> [true_divide k srate]] Map.empty)"
proof -
  have on: "edge_times true_divide srate 16 (rising_edges (trace16 syncdat)) =
              [c \<mapsto> [true_divide k srate]]"
    using assms(1) step_edges(1) [OF assms(1,2) _ assms(3)]
    by (auto simp add: edge_times_def fun_eq_iff split: if_splits)
  have off: "edge_times true_divide srate 16 (falling_edges (trace16 syncdat)) = Map.empty"
    by (rule edge_times_empty) (rule step_edges(2) [OF assms(1,2) _ assms(3)])
  show ?thesis
    by (simp only: unpack_npix_sync_events on off)
qed

theorem step_signal_onset_witness:
  "(2 :: nat) < 16 \<and> \<not> bit (1 :: int) 2
   \<and> data \<lparr>shape = [5], data = [1, 1, 1, 5, 5 :: int]\<rparr> =
       replicate (Suc 2) 1 @ replicate (Suc 1) (1 + 2 ^ 2)
   \<and> unpack_npix_sync (\<lambda>i s. real i / s) \<lparr>shape = [5], data = [1, 1, 1, 5, 5]\<rparr> (2 :: real) False =
       Inr (Events [2 \<mapsto> [1]] Map.empty)"
proof -
  have h: "(2 :: nat) < 16" "\<not> bit (1 :: int) 2"
    "data \<lparr>shape = [5], data = [1, 1, 1, 5, 5 :: int]\<rparr> =
       replicate (Suc 2) 1 @ replicate (Suc 1) (1 + 2 ^ 2)"
    by (simp_all add: numeral_2_eq_2 bit_Suc)
  from step_signal_onset [OF h, of "\<lambda>i s. real i / s" 2] h show ?thesis
    by simp
qed

section \<open>Properties of the memory-mapped recordings\<close>



lemma nth_concat_rows_set:
  "(\<And>x. x \<in> set xs \<Longrightarrow> length (f x) = n) \<Longrightarrow> i < length xs \<Longrightarrow> b < n \<Longrightarrow>
   concat (map f xs) ! (i * n + b) = f (xs ! i) ! b"
proof (induction xs arbitrary: i)
  case Nil
  then show ?case by simp
next
  case (Cons a xs)
  have la: "length (f a) = n" by (rule Cons.prems(1)) simp
  show ?case
  proof (cases i)
    case 0
    with Cons.prems la show ?thesis by (simp add: nth_append)
  next
    case (Suc j)
    with Cons.prems have "j < length xs" by simp
    moreover have "\<And>x. x \<in> set xs \<Longrightarrow> length (f x) = n"
      by (rule Cons.prems(1)) simp
    ultimately have "concat (map f xs) ! (j * n + b) = f (xs ! j) ! b"
      using Cons.prems(3) by (intro Cons.IH)
    with Suc la show ?thesis by (simp add: nth_append add.assoc)
  qed
qed

lemma length_concat_rows_set:
  "(\<And>x. x \<in> set xs \<Longrightarrow> length (f x) = n) \<Longrightarrow> length (concat (map f xs)) = length xs * n"
  by (induction xs) auto









lemma getitem2_transposed:
  assumes "j < w" and "i < m"
  shows "transpose10 \<lparr>shape = [m, w], data = ds\<rparr> =
           Inr \<lparr>shape = [w, m], data = concat (map (\<lambda>j. map (\<lambda>i. ds ! (i * w + j)) [0..<m]) [0..<w])\<rparr>"
    and "getitem2 \<lparr>shape = [w, m],
            data = concat (map (\<lambda>j. map (\<lambda>i. ds ! (i * w + j)) [0..<m]) [0..<w])\<rparr> j i =
           Inr (ds ! (i * w + j))"
proof -
  show "transpose10 \<lparr>shape = [m, w], data = ds\<rparr> =
           Inr \<lparr>shape = [w, m], data = concat (map (\<lambda>j. map (\<lambda>i. ds ! (i * w + j)) [0..<m]) [0..<w])\<rparr>"
    by (simp add: transpose10_def)
  have "concat (map (\<lambda>j. map (\<lambda>i. ds ! (i * w + j)) [0..<m]) [0..<w]) ! (j * m + i) =
          map (\<lambda>i. ds ! (i * w + ([0..<w] ! j))) [0..<m] ! i"
    using assms by (intro nth_concat_rows) simp_all
  also have "\<dots> = ds ! (i * w + j)"
    using assms by simp
  finally show "getitem2 \<lparr>shape = [w, m],
            data = concat (map (\<lambda>j. map (\<lambda>i. ds ! (i * w + j)) [0..<m]) [0..<w])\<rparr> j i =
           Inr (ds ! (i * w + j))"
    using assms by (simp add: getitem2_def)
qed



section \<open>Properties of the extraction functions\<close>






lemma chunk_empty: "chunk file Nchans syncChan i = [] \<longleftrightarrow> \<not> (i * Nchans + syncChan) * 2 < length file"
  by (auto simp add: chunk_def)

lemma read_sync_zero:
  assumes "Nchans = 0 \<or> length file = 0" and "i < 60000"
  shows "read_sync file Nchans syncChan i sc = Inl ZeroDivisionError"
  using assms by (subst read_sync.simps) auto

lemma read_sync_eq:
  assumes "0 < Nchans" and "0 < length f"
  shows "read_sync f Nchans syncChan i sc =
           Inr (sc @ concat (map (chunk f Nchans syncChan)
                  (takeWhile (\<lambda>j. (j * Nchans + syncChan) * 2 < length f) [i..<60000])))"
  using assms
proof (induction f Nchans syncChan i sc rule: read_sync.induct)
  case (1 f Nchans syncChan i sc)
  show ?case
  proof (cases "i < 60000")
    case False
    then show ?thesis by (subst read_sync.simps) simp
  next
    case True
    then have up: "[i..<60000] = i # [Suc i..<60000]"
      by (rule upt_conv_Cons)
    show ?thesis
    proof (cases "(i * Nchans + syncChan) * 2 < length f")
      case False
      with True "1.prems" show ?thesis
        by (subst read_sync.simps) (simp add: up Let_def del: upt_Suc)
    next
      case inside: True
      then have ne: "take 2 (drop ((i * Nchans + syncChan) * 2) f) \<noteq> []"
        by simp
      have "read_sync f Nchans syncChan i sc =
              read_sync f Nchans syncChan (i + 1) (sc @ chunk f Nchans syncChan i)"
        using True "1.prems" ne by (subst read_sync.simps) (simp add: Let_def chunk_def)
      also have "\<dots> = Inr ((sc @ chunk f Nchans syncChan i) @
          concat (map (chunk f Nchans syncChan)
            (takeWhile (\<lambda>j. (j * Nchans + syncChan) * 2 < length f) [i + 1..<60000])))"
        using True "1.prems" ne by (intro "1.IH") (simp_all add: chunk_def)
      finally show ?thesis
        using inside by (simp add: up del: upt_Suc)
    qed
  qed
qed


lemma read_sync_samples:
  assumes "0 < Nchans" and "0 < length f"
  shows "read_sync f Nchans syncChan 30000 [] =
           Inr (concat (map (chunk f Nchans syncChan) (sync_samples f Nchans syncChan)))"
  unfolding sync_samples_def read_sync_eq [OF assms] by (simp only: append_Nil)

lemma length_sync_samples: "length (sync_samples f Nchans syncChan) \<le> 30000"
proof -
  have "length (sync_samples f Nchans syncChan) \<le> length [30000..<60000]"
    unfolding sync_samples_def by (rule length_takeWhile_le)
  then show ?thesis by (simp only: length_upt)
qed

lemma nth_sync_samples:
  assumes "j < length (sync_samples f Nchans syncChan)"
  shows "sync_samples f Nchans syncChan ! j = 30000 + j"
    and "((30000 + j) * Nchans + syncChan) * 2 < length f"
proof -
  have j: "j < 30000"
    using assms length_sync_samples [of f Nchans syncChan] by simp
  have "sync_samples f Nchans syncChan ! j = [30000..<60000] ! j"
    using assms unfolding sync_samples_def by (rule takeWhile_nth)
  also have "\<dots> = 30000 + j"
    using j by (simp only: nth_upt)
  finally show eq: "sync_samples f Nchans syncChan ! j = 30000 + j" .
  have "sync_samples f Nchans syncChan ! j \<in> set (sync_samples f Nchans syncChan)"
    using assms by (rule nth_mem)
  then have "(sync_samples f Nchans syncChan ! j * Nchans + syncChan) * 2 < length f"
    unfolding sync_samples_def by (auto dest: set_takeWhileD simp del: upt_rec_numeral)
  then show "((30000 + j) * Nchans + syncChan) * 2 < length f"
    by (simp only: eq)
qed

lemma length_chunk_le: "length (chunk f Nchans syncChan i) \<le> 2"
  by (simp add: chunk_def)

lemma length_concat_le:
  "(\<And>x. length (g x) \<le> n) \<Longrightarrow> length (concat (map g xs)) \<le> length xs * n"
proof (induction xs)
  case Nil
  then show ?case by simp
next
  case (Cons a xs)
  from Cons.prems [of a] Cons.IH [OF Cons.prems] show ?case by simp
qed

lemma length_np_unpackbits: "length (np_unpackbits bs) = length bs * 8"
  unfolding np_unpackbits_def by (rule length_concat_rows) simp

lemma samples_in_recording:
  assumes "0 < length (sync_samples f Nchans syncChan)" and "0 < Nchans"
  shows "length (sync_samples f Nchans syncChan) + 29999 \<le> length f div (2 * Nchans)"
proof -
  let ?n = "length (sync_samples f Nchans syncChan)"
  have "?n - 1 < ?n" using assms by simp
  from nth_sync_samples(2) [OF this]
  have "((30000 + (?n - 1)) * Nchans + syncChan) * 2 < length f" .
  moreover have "30000 + (?n - 1) = ?n + 29999" using assms by simp
  ultimately have "(?n + 29999) * (2 * Nchans) < length f"
    by (simp add: algebra_simps)
  then have "(?n + 29999) * (2 * Nchans) \<le> length f" by simp
  moreover have "0 < 2 * Nchans"
    using assms(2) by simp
  ultimately show ?thesis
    by (simp only: less_eq_div_iff_mult_less_eq)
qed


lemma sync_matrix:
  "(let bits = np_unpackbits sc; Nsamples = length bits div 16
    in bind_err (reshape \<lparr>shape = [length bits], data = bits\<rparr> [int Nsamples, 16]) transpose10) =
   (if even (length sc)
    then Inr \<lparr>shape = [16, length sc div 2],
              data = concat (map (\<lambda>r. map (\<lambda>j. np_unpackbits sc ! (j * 16 + r)) [0..<length sc div 2])
                        [0..<16])\<rparr>
    else Inl ValueError)"
proof -
  let ?bits = "np_unpackbits sc"
  have n: "length ?bits div 16 = length sc div 2"
    by (simp add: length_np_unpackbits)
  have sh: "[int (length sc div 2), 16] = map int [length sc div 2, 16]"
    by simp
  have fit: "prod_list [length sc div 2, 16] = length ?bits \<longleftrightarrow> even (length sc)"
    unfolding length_np_unpackbits by (simp add: prod_list.Cons) presburger
  show ?thesis
    unfolding Let_def n sh reshape_nat
    by (simp only: ndarray.simps fit) (simp add: bind_err_def transpose10_def)
qed

lemma extract_syncChan_eq:
  assumes "last4 bp = ''.bin''"
    and "fs (data_path bp @ ''/'' @ binary_name bp @ ''_sync.npy'') = None"
    and "fs bp = Some f"
  shows "extract_syncChan fs load bp syncChan Nchans =
     (if Nchans = 0 \<or> length f = 0 then Inl ZeroDivisionError
      else
        (let sc = concat (map (chunk f Nchans syncChan) (sync_samples f Nchans syncChan))
         in if even (length sc)
            then Inr \<lparr>shape = [16, length sc div 2],
                  data = concat (map (\<lambda>r. map (\<lambda>j. np_unpackbits sc ! (j * 16 + r))
                            [0..<length sc div 2]) [0..<16])\<rparr>
            else Inl ValueError))"
proof (cases "Nchans = 0 \<or> length f = 0")
  case True
  then have "read_sync f Nchans syncChan 30000 [] = Inl ZeroDivisionError"
    by (rule read_sync_zero) simp
  with True show ?thesis
    unfolding extract_syncChan_def Let_def using assms
    by (simp add: bind_err_def)
next
  case False
  then have "read_sync f Nchans syncChan 30000 [] =
           Inr (concat (map (chunk f Nchans syncChan) (sync_samples f Nchans syncChan)))"
    by (intro read_sync_samples) simp_all
  with False sync_matrix [of "concat (map (chunk f Nchans syncChan) (sync_samples f Nchans syncChan))"]
  show ?thesis
    unfolding extract_syncChan_def using assms
    by (simp add: bind_err_def Let_def)
qed


lemma length_chunk_even:
  assumes "even (length f)" and "(i * Nchans + syncChan) * 2 < length f"
  shows "length (chunk f Nchans syncChan i) = 2"
proof -
  from assms have "(i * Nchans + syncChan) * 2 + 2 \<le> length f"
    by presburger
  then show ?thesis by (simp add: chunk_def)
qed

lemma length_chunks_even:
  assumes "even (length f)"
  shows "x \<in> set (sync_samples f Nchans syncChan) \<Longrightarrow> length (chunk f Nchans syncChan x) = 2"
proof -
  assume "x \<in> set (sync_samples f Nchans syncChan)"
  then have "(x * Nchans + syncChan) * 2 < length f"
    unfolding sync_samples_def by (auto dest: set_takeWhileD simp del: upt_rec_numeral)
  with assms show ?thesis by (rule length_chunk_even)
qed

lemma nth_np_unpackbits:
  assumes "q < length sc" and "b < 8"
  shows "np_unpackbits sc ! (q * 8 + b) = (if bit (sc ! q) (7 - b) then 1 else 0)"
proof -
  have "np_unpackbits sc ! (q * 8 + b) =
          map (\<lambda>j. if bit (sc ! q) (7 - j) then 1 else 0) [0..<8] ! b"
    unfolding np_unpackbits_def using assms by (intro nth_concat_rows) simp_all
  also have "\<dots> = (if bit (sc ! q) (7 - b) then 1 else 0)"
    using assms(2) by (simp only: nth_map length_upt nth_upt) simp
  finally show ?thesis .
qed

lemma sync_bit:
  assumes "even (length f)" and "j < length (sync_samples f Nchans syncChan)" and "r < 16"
  shows "np_unpackbits (concat (map (chunk f Nchans syncChan) (sync_samples f Nchans syncChan)))
           ! (j * 16 + r) =
         (if bit (f ! (((30000 + j) * Nchans + syncChan) * 2 + r div 8)) (7 - r mod 8) then 1 else 0)"
proof -
  let ?ss = "sync_samples f Nchans syncChan"
  let ?sc = "concat (map (chunk f Nchans syncChan) ?ss)"
  have len: "length ?sc = length ?ss * 2"
    by (rule length_concat_rows_set) (rule length_chunks_even [OF assms(1)])
  have d: "r div 8 < 2" using assms(3) by simp
  have q: "j * 2 + r div 8 < length ?sc"
    using assms(2) d unfolding len by simp
  have split: "j * 16 + r = (j * 2 + r div 8) * 8 + r mod 8"
    by simp
  have "?sc ! (j * 2 + r div 8) = chunk f Nchans syncChan (?ss ! j) ! (r div 8)"
    using assms(2) d
    by (intro nth_concat_rows_set) (simp_all only: length_chunks_even [OF assms(1)])
  also have "\<dots> = chunk f Nchans syncChan (30000 + j) ! (r div 8)"
    by (simp only: nth_sync_samples(1) [OF assms(2)])
  also have "\<dots> = f ! (((30000 + j) * Nchans + syncChan) * 2 + r div 8)"
    using d nth_sync_samples(2) [OF assms(2)] by (simp add: chunk_def)
  finally have byte: "?sc ! (j * 2 + r div 8) =
      f ! (((30000 + j) * Nchans + syncChan) * 2 + r div 8)" .
  show ?thesis
    unfolding split using nth_np_unpackbits [OF q, of "r mod 8"] by (simp add: byte)
qed

text \<open>
  Claim C9. Without a cached result, \<open>extract_syncChan\<close> reads the sync channel of the
  samples from 30000 on and before 60000 only. Whenever it returns, the array has the
  shape \<open>(16, Nsamples)\<close> with \<open>Nsamples\<close> at most 30000, and \<open>Nsamples + 29999\<close> is at most
  the number of samples of the recording when a sample was read at all: the result never
  covers the recording. For a file of even, positive length and a positive number of
  channels it does return, \<open>Nsamples\<close> is the number of samples 30000, 30001, \<dots> below
  60000 that lie inside the file, and column \<open>j\<close> holds the bits of the two bytes of
  sample \<open>30000 + j\<close> of the sync channel, the highest bit of each byte first.
\<close>

theorem extract_syncChan_window:
  assumes "last4 bp = ''.bin''"
    and "fs (data_path bp @ ''/'' @ binary_name bp @ ''_sync.npy'') = None"
    and "fs bp = Some f"
  shows "(\<forall>a. extract_syncChan fs load bp syncChan Nchans = Inr a \<longrightarrow>
            (\<exists>n. shape a = [16, n] \<and> n \<le> 30000
                 \<and> (0 < n \<longrightarrow> n + 29999 \<le> length f div (2 * Nchans))
                 \<and> (0 < length f div (2 * Nchans) \<longrightarrow> n < length f div (2 * Nchans))))
       \<and> (0 < Nchans \<and> 0 < length f \<and> even (length f) \<longrightarrow>
            (\<exists>a n. extract_syncChan fs load bp syncChan Nchans = Inr a \<and> shape a = [16, n]
                 \<and> n = length (sync_samples f Nchans syncChan)
                 \<and> (\<forall>j < n. \<forall>r < 16. getitem2 a r j =
                       Inr (if bit (f ! (((30000 + j) * Nchans + syncChan) * 2 + r div 8))
                                   (7 - r mod 8) then 1 else 0))))"
proof (intro conjI allI impI)
  let ?ss = "sync_samples f Nchans syncChan"
  let ?sc = "concat (map (chunk f Nchans syncChan) ?ss)"
  note eq = extract_syncChan_eq [where fs = fs and load = load and syncChan = syncChan
      and Nchans = Nchans, OF assms]
  have le: "length ?sc \<le> length ?ss * 2"
    by (rule length_concat_le) (rule length_chunk_le)
  {
    fix a
    assume ret: "extract_syncChan fs load bp syncChan Nchans = Inr a"
    then have N: "0 < Nchans" and a: "shape a = [16, length ?sc div 2]"
      unfolding eq by (auto simp add: Let_def split: if_splits)
    let ?n = "length ?sc div 2"
    have n: "?n \<le> length ?ss" using le by simp
    then have b1: "?n \<le> 30000"
      using length_sync_samples [of f Nchans syncChan] by simp
    have b2: "?n + 29999 \<le> length f div (2 * Nchans)" if "0 < ?n"
    proof -
      from that n have "0 < length ?ss" by linarith
      from samples_in_recording [OF this N] n show ?thesis by simp
    qed
    have b3: "?n < length f div (2 * Nchans)" if "0 < length f div (2 * Nchans)"
      using that b2 by (cases "0 < ?n") simp_all
    show "\<exists>n. shape a = [16, n] \<and> n \<le> 30000
                 \<and> (0 < n \<longrightarrow> n + 29999 \<le> length f div (2 * Nchans))
                 \<and> (0 < length f div (2 * Nchans) \<longrightarrow> n < length f div (2 * Nchans))"
    proof (intro exI [of _ ?n] conjI impI)
      show "shape a = [16, ?n]" by (rule a)
      show "?n \<le> 30000" by (rule b1)
      show "?n + 29999 \<le> length f div (2 * Nchans)" if "0 < ?n"
        using that by (rule b2)
      show "?n < length f div (2 * Nchans)" if "0 < length f div (2 * Nchans)"
        using that by (rule b3)
    qed
  }
  assume ok: "0 < Nchans \<and> 0 < length f \<and> even (length f)"
  then have ev: "even (length f)" by simp
  have len: "length ?sc = length ?ss * 2"
    by (rule length_concat_rows_set) (rule length_chunks_even [OF ev])
  let ?a = "\<lparr>shape = [16, length ?ss],
      data = concat (map (\<lambda>r. map (\<lambda>j. np_unpackbits ?sc ! (j * 16 + r)) [0..<length ?ss]) [0..<16])\<rparr>"
  have ret: "extract_syncChan fs load bp syncChan Nchans = Inr ?a"
    unfolding eq using ok by (simp add: Let_def len)
  have ent: "getitem2 ?a r j =
      Inr (if bit (f ! (((30000 + j) * Nchans + syncChan) * 2 + r div 8)) (7 - r mod 8) then 1 else 0)"
    if "j < length ?ss" and "r < 16" for j r
    using getitem2_transposed(2) [OF that(2,1), of "np_unpackbits ?sc"]
    by (simp only: sync_bit [OF ev that])
  from ret ent
  show "\<exists>a n. extract_syncChan fs load bp syncChan Nchans = Inr a \<and> shape a = [16, n]
                 \<and> n = length (sync_samples f Nchans syncChan)
                 \<and> (\<forall>j < n. \<forall>r < 16. getitem2 a r j =
                       Inr (if bit (f ! (((30000 + j) * Nchans + syncChan) * 2 + r div 8))
                                   (7 - r mod 8) then 1 else 0))"
    by (intro exI [of _ ?a] exI [of _ "length ?ss"]) simp
qed




lemma first_sync_samples: "[30000..<60000] = 30000 # 30001 # 30002 # [30003..<60000]"
proof -
  have "[30000..<60000] = 30000 # [Suc 30000..<60000]"
    by (rule upt_conv_Cons) simp
  also have "[Suc 30000..<60000] = Suc 30000 # [Suc (Suc 30000)..<60000]"
    by (rule upt_conv_Cons) simp
  also have "[Suc (Suc 30000)..<60000] = Suc (Suc 30000) # [Suc (Suc (Suc 30000))..<60000]"
    by (rule upt_conv_Cons) simp
  finally show ?thesis by (simp del: upt_rec_numeral upt_Suc)
qed

theorem extract_syncChan_window_witness:
  "last4 ''d/r.bin'' = ''.bin''
   \<and> [''d/r.bin'' \<mapsto> replicate 60000 0 @ [1, 2, 3, 4 :: byte]]
        (data_path ''d/r.bin'' @ ''/'' @ binary_name ''d/r.bin'' @ ''_sync.npy'') = None
   \<and> [''d/r.bin'' \<mapsto> replicate 60000 0 @ [1, 2, 3, 4 :: byte]] ''d/r.bin''
        = Some (replicate 60000 0 @ [1, 2, 3, 4 :: byte])
   \<and> (0 :: nat) < 1 \<and> 0 < length (replicate 60000 0 @ [1, 2, 3, 4 :: byte])
   \<and> even (length (replicate 60000 0 @ [1, 2, 3, 4 :: byte]))
   \<and> (\<exists>a. extract_syncChan [''d/r.bin'' \<mapsto> replicate 60000 0 @ [1, 2, 3, 4 :: byte]]
             (\<lambda>cached. Inl ValueError) ''d/r.bin'' 0 1 = Inr a
          \<and> shape a = [16, 2] \<and> getitem2 a 7 0 = Inr 1 \<and> getitem2 a 6 0 = Inr 0
          \<and> getitem2 a 6 1 = Inr 1 \<and> getitem2 a 13 1 = Inr 1)"
proof -
  let ?f = "replicate 60000 0 @ [1, 2, 3, 4 :: byte]"
  let ?fs = "[''d/r.bin'' \<mapsto> ?f]"
  have h: "last4 ''d/r.bin'' = ''.bin''"
    "?fs (data_path ''d/r.bin'' @ ''/'' @ binary_name ''d/r.bin'' @ ''_sync.npy'') = None"
    "?fs ''d/r.bin'' = Some ?f"
    by (simp_all add: last4_def data_path_def binary_name_def)
  have k: "(0 :: nat) < 1 \<and> 0 < length ?f \<and> even (length ?f)"
    by simp
  have n: "length (sync_samples ?f 1 0) = 2"
    unfolding sync_samples_def first_sync_samples by (simp del: upt_rec_numeral)
  have byte: "?f ! 60000 = 1" "?f ! 60001 = 2" "?f ! 60002 = 3" "?f ! 60003 = 4"
    by (simp_all add: nth_append)
  from extract_syncChan_window [where fs = ?fs and load = "\<lambda>cached. Inl ValueError"
      and syncChan = 0 and Nchans = 1, OF h] k
  obtain a where a: "extract_syncChan ?fs (\<lambda>cached. Inl ValueError) ''d/r.bin'' 0 1 = Inr a"
    "shape a = [16, 2]"
    and ent: "\<And>j r. j < 2 \<Longrightarrow> r < 16 \<Longrightarrow> getitem2 a r j =
       Inr (if bit (?f ! (((30000 + j) * 1 + 0) * 2 + r div 8)) (7 - r mod 8) then 1 else 0)"
    unfolding n by blast
  have "getitem2 a 7 0 = Inr 1" "getitem2 a 6 0 = Inr 0" "getitem2 a 6 1 = Inr 1"
    "getitem2 a 13 1 = Inr 1"
    using ent [of 0 7] ent [of 0 6] ent [of 1 6] ent [of 1 13]
    by (simp_all add: byte bit_numeral_simps)
  with a h k show ?thesis by blast
qed

end
